theory Spec2Isabelle
  imports Complex_Main
begin

section \<open>The crawl engine of crawler.py\<close>

text \<open>
  The class \<open>WebCrawler\<close> keeps a frontier queue, a visited set, a running flag and the
  widgets of its window. Worker threads run \<open>worker\<close>; the buttons of the window run
  \<open>start_crawler\<close>, \<open>stop_crawler\<close> and \<open>clear_storage\<close> on the window's thread. The
  object is a record, every method a function from the record to the updated record, and a
  thread a program counter that one step function advances by one atomic action. What the
  outside world answers (the HTTP response, the clock, a failing file operation, the answer
  to a dialog) is an argument of the step.

  A handler of the window (\<open>start_crawler\<close>, \<open>stop_crawler\<close>, \<open>clear_storage\<close>,
  \<open>update_stats\<close>) is one event: the handlers run one after the other on the window's
  thread. The calls into the window itself (inserting into the table or the log area,
  setting a label) and the start of a thread are taken to succeed.
\<close>

subsection \<open>Built-ins of Python\<close>

text \<open>\<open>str.isspace\<close> on the code points below 256, and \<open>str.strip()\<close> with it.\<close>

definition isspace :: "char \<Rightarrow> bool" where
  "isspace ch = (of_char ch \<in> set [9, 10, 11, 12, 13, 28, 29, 30, 31, 32, 133, 160 :: nat])"

definition strip :: "string \<Rightarrow> string" where
  "strip s = rev (dropWhile isspace (rev (dropWhile isspace s)))"

definition startswith :: "string \<Rightarrow> string \<Rightarrow> bool" where
  "startswith s p = (take (length p) s = p)"

text \<open>\<open>str(n)\<close> for an integer: decimal digits, a minus sign for a negative one.\<close>

fun digits10 :: "nat \<Rightarrow> string" where
  "digits10 n =
     (if n < 10 then [''0123456789'' ! n]
      else digits10 (n div 10) @ [''0123456789'' ! (n mod 10)])"

declare digits10.simps [simp del]

definition str_int :: "int \<Rightarrow> string" where
  "str_int i = (if i < 0 then CHR ''-'' # digits10 (nat (- i)) else digits10 (nat i))"

text \<open>
  A float as far as the crawler looks at it: it is compared with zero and handed to
  \<open>time.sleep\<close>. \<open>time.sleep\<close> raises on a negative number, on NaN and on a number too
  large for the platform's clock (the limit is a parameter, \<open>sleep_limit\<close> below).
\<close>

datatype pyfloat = Num real | PosInf | NegInf | NaN

fun float_lt_zero :: "pyfloat \<Rightarrow> bool" where
  "float_lt_zero (Num r) = (r < 0)"
| "float_lt_zero NegInf = True"
| "float_lt_zero PosInf = False"
| "float_lt_zero NaN = False"

subsection \<open>Library functions, as parameters\<close>

text \<open>
  \<open>urllib.parse\<close>, \<open>int()\<close> and \<open>float()\<close> are not code of the repository. They are taken
  as parameters; a call that raises returns \<open>Inl\<close> with the text of the exception.
\<close>

record parsed =
  scheme :: string
  netloc :: string

record pylib =
  urljoin :: "string \<Rightarrow> string \<Rightarrow> string + string"
  urlparse :: "string \<Rightarrow> string + parsed"
  py_int :: "string \<Rightarrow> string + int"
  py_float :: "string \<Rightarrow> string + pyfloat"
  sleep_limit :: real

fun time_sleep :: "pylib \<Rightarrow> pyfloat \<Rightarrow> string option" where
  "time_sleep L (Num r) =
     (if r < 0 then Some ''sleep length must be non-negative''
      else if sleep_limit L < r then Some ''timestamp too large to convert to C _PyTime_t''
      else None)"
| "time_sleep L PosInf = Some ''timestamp too large to convert to C _PyTime_t''"
| "time_sleep L NegInf = Some ''sleep length must be non-negative''"
| "time_sleep L NaN = Some ''Invalid value NaN (not a number)''"

subsection \<open>What the outside world answers\<close>

text \<open>
  \<open>requests.get\<close> raises or returns a status code and a body; \<open>BeautifulSoup\<close> raises on
  the body or gives the \<open>href\<close> values of its anchors in document order.
\<close>

datatype page = Unparsable string | Anchors "string list"

datatype response = Raises string | Response int page

record world =
  get_times_out :: bool
  http :: response
  now :: string
  io_error :: "string option"
  answer_yes :: bool

subsection \<open>The state\<close>

text \<open>
  The program counter of a worker thread, one value per place where another thread can
  run in between: the test of the \<open>while\<close>, the blocking \<open>get\<close>, the check under the lock,
  \<open>crawl_page\<close>, \<open>save_url\<close>, waiting for the lock, the \<open>for\<close> loop under the lock with the
  links still to go, \<open>time.sleep\<close>, the last \<open>task_done\<close>. \<open>Exited\<close> is a thread that left
  the loop, \<open>Dead\<close> one that an exception killed.
\<close>

datatype pc =
    LoopHead
  | Getting
  | Checking string
  | Crawling string
  | Saving string "string list" int
  | Locking "string list"
  | Putting "string list"
  | Sleeping
  | Finishing
  | Exited
  | Dead

text \<open>
  The fields of the object, the widgets it reads and writes (entries, labels, table, log
  area, dialogs shown), the files by name (a CSV file is its list of rows), the threads
  started so far and the timers armed with \<open>root.after\<close>. The last three fields are
  history: the GET requests sent, the rows \<open>save_url\<close> has written, and the naps taken.
  A line of the log area is kept without its clock prefix.
\<close>

record crawler =
  url_queue :: "string list"
  unfinished_tasks :: nat
  visited_urls :: "string set"
  visited_lock :: "nat option"
  crawler_running :: bool
  start_url_entry :: string
  max_threads_entry :: string
  politeness_delay_entry :: string
  storage_file_entry :: string
  restrict_domain :: bool
  queue_count :: string
  visited_count :: string
  current_status :: string
  url_table :: "string list list"
  log_area :: "string list"
  dialogs :: "(string \<times> string) list"
  files :: "string \<Rightarrow> string list list option"
  workers :: "pc list"
  timers :: nat
  requests_sent :: "string list"
  records :: "(string \<times> string \<times> int) list"
  sleeps :: "pyfloat list"

definition setup_stats :: "crawler \<Rightarrow> crawler" where
  "setup_stats c = c\<lparr>queue_count := ''0'', visited_count := ''0'', current_status := ''Idle''\<rparr>"

text \<open>
  \<open>__init__\<close> with \<open>setup_ui\<close>: the default of the thread entry comes from the machine
  (\<open>count\<close> is what \<open>cpuinfo\<close> reports), the files are whatever the disk holds.
\<close>

definition new_crawler :: "int \<Rightarrow> (string \<Rightarrow> string list list option) \<Rightarrow> crawler" where
  "new_crawler count disk = setup_stats
     \<lparr> url_queue = [], unfinished_tasks = 0, visited_urls = {}, visited_lock = None,
       crawler_running = False,
       start_url_entry = ''https://example.com'',
       max_threads_entry = str_int (min count 8),
       politeness_delay_entry = ''1.0'',
       storage_file_entry = ''crawled_urls.csv'',
       restrict_domain = True,
       queue_count = ''0'', visited_count = ''0'', current_status = ''0'',
       url_table = [], log_area = [], dialogs = [], files = disk, workers = [], timers = 0,
       requests_sent = [], records = [], sleeps = [] \<rparr>"

definition log_line :: "string \<Rightarrow> crawler \<Rightarrow> crawler" where
  "log_line message c = c\<lparr>log_area := log_area c @ [message]\<rparr>"

definition show_dialog :: "string \<Rightarrow> string \<Rightarrow> crawler \<Rightarrow> crawler" where
  "show_dialog title message c = c\<lparr>dialogs := dialogs c @ [(title, message)]\<rparr>"

text \<open>\<open>queue.Queue.put\<close> and \<open>task_done\<close>; the latter raises when nothing is unfinished.\<close>

definition put :: "string \<Rightarrow> crawler \<Rightarrow> crawler" where
  "put url c = c\<lparr>url_queue := url_queue c @ [url], unfinished_tasks := unfinished_tasks c + 1\<rparr>"

definition task_done :: "crawler \<Rightarrow> string + crawler" where
  "task_done c =
     (if unfinished_tasks c = 0 then Inl ''task_done() called too many times''
      else Inr (c\<lparr>unfinished_tasks := unfinished_tasks c - 1\<rparr>))"

subsection \<open>update_stats\<close>

definition update_stats :: "crawler \<Rightarrow> crawler" where
  "update_stats c =
     (if crawler_running c
      then c\<lparr>queue_count := str_int (int (length (url_queue c))),
             visited_count := str_int (int (card (visited_urls c))),
             timers := timers c + 1\<rparr>
      else c)"

definition tick :: "crawler \<Rightarrow> crawler" where
  "tick c = (if timers c = 0 then c else update_stats (c\<lparr>timers := timers c - 1\<rparr>))"

subsection \<open>crawl_page\<close>

text \<open>
  The test of the loop body: \<open>not base_domain\<close> holds for \<open>None\<close> and for the empty string.
\<close>

definition keep_link :: "string option \<Rightarrow> parsed \<Rightarrow> bool" where
  "keep_link base_domain p =
     ((base_domain = None \<or> base_domain = Some [] \<or> Some (netloc p) = base_domain)
      \<and> scheme p \<in> {''http'', ''https''})"

text \<open>The \<open>for\<close> loop over the anchors; an exception of \<open>urljoin\<close> or \<open>urlparse\<close> ends it.\<close>

fun crawl_page_loop :: "pylib \<Rightarrow> string \<Rightarrow> string option \<Rightarrow> string list \<Rightarrow> string + string list" where
  "crawl_page_loop L url base_domain [] = Inr []"
| "crawl_page_loop L url base_domain (href # hrefs) =
     (case urljoin L url href of
        Inl e \<Rightarrow> Inl e
      | Inr full_url \<Rightarrow>
          (case urlparse L full_url of
             Inl e \<Rightarrow> Inl e
           | Inr p \<Rightarrow>
               (case crawl_page_loop L url base_domain hrefs of
                  Inl e \<Rightarrow> Inl e
                | Inr links \<Rightarrow> Inr (if keep_link base_domain p then full_url # links else links))))"

definition crawl_page_failed :: "string \<Rightarrow> string \<Rightarrow> crawler \<Rightarrow> (string list \<times> int) \<times> crawler" where
  "crawl_page_failed url e c = (([], 0), log_line (''Error crawling '' @ url @ '': '' @ e) c)"

definition crawl_page :: "pylib \<Rightarrow> response \<Rightarrow> string \<Rightarrow> crawler \<Rightarrow> (string list \<times> int) \<times> crawler" where
  "crawl_page L r url c0 =
     (let c = c0\<lparr>requests_sent := requests_sent c0 @ [url]\<rparr> in
      case r of
        Raises e \<Rightarrow> crawl_page_failed url e c
      | Response status body \<Rightarrow>
          if status \<noteq> 200 then (([], status), c)
          else
            (case body of
               Unparsable e \<Rightarrow> crawl_page_failed url e c
             | Anchors hrefs \<Rightarrow>
                 (case (if restrict_domain c
                        then (case urlparse L url of Inl e \<Rightarrow> Inl e | Inr p \<Rightarrow> Inr (Some (netloc p)))
                        else Inr None) of
                    Inl e \<Rightarrow> crawl_page_failed url e c
                  | Inr base_domain \<Rightarrow>
                      (case crawl_page_loop L url base_domain hrefs of
                         Inl e \<Rightarrow> crawl_page_failed url e c
                       | Inr links \<Rightarrow> ((links, status), c)))))"

subsection \<open>save_url and load_urls\<close>

text \<open>
  Opening the file is the operation that can fail. A file opened for appending that did
  not exist starts with the header row.
\<close>

definition save_url :: "world \<Rightarrow> string \<Rightarrow> int \<Rightarrow> crawler \<Rightarrow> crawler" where
  "save_url w url status c =
     (let filename = storage_file_entry c in
      case io_error w of
        Some e \<Rightarrow> log_line (''Error saving '' @ url @ '': '' @ e) c
      | None \<Rightarrow>
          (let row = [url, now w, str_int status];
               before = (case files c filename of
                           None \<Rightarrow> [[''URL'', ''Timestamp'', ''Status'']]
                         | Some rows \<Rightarrow> rows)
           in log_line (''Crawled: '' @ url @ '' (Status: '' @ str_int status @ '')'')
                (c\<lparr>files := (files c)(filename \<mapsto> before @ [row]),
                   url_table := url_table c @ [row],
                   records := records c @ [(url, now w, status)]\<rparr>)))"

text \<open>
  \<open>next(reader)\<close> on a file without rows raises \<open>StopIteration\<close>, whose text is empty.
  A row is skipped when it is empty, so \<open>row[0]\<close> is the head of a non-empty list.
\<close>

definition load_urls :: "world \<Rightarrow> crawler \<Rightarrow> crawler" where
  "load_urls w c =
     (let filename = storage_file_entry c in
      case files c filename of
        None \<Rightarrow> c
      | Some rows \<Rightarrow>
          (case io_error w of
             Some e \<Rightarrow> log_line (''Error loading URLs: '' @ e) c
           | None \<Rightarrow>
               (case rows of
                  [] \<Rightarrow> log_line (''Error loading URLs: '') c
                | header # body \<Rightarrow>
                    (let loaded = filter (\<lambda>row. row \<noteq> []) body;
                         c1 = c\<lparr>visited_urls := visited_urls c \<union> set (map hd loaded),
                                url_table := url_table c @ loaded\<rparr>
                     in log_line (''Loaded '' @ str_int (int (card (visited_urls c1)))
                             @ '' URLs from storage'') c1))))"

subsection \<open>start_crawler, stop_crawler, clear_storage\<close>

definition start_crawler :: "pylib \<Rightarrow> world \<Rightarrow> crawler \<Rightarrow> crawler" where
  "start_crawler L w c =
     (if crawler_running c then show_dialog ''Info'' ''Crawler is already running'' c
      else
        (let start_url = strip (start_url_entry c) in
         if \<not> (startswith start_url ''http://'' \<or> startswith start_url ''https://'')
         then show_dialog ''Error'' ''Invalid URL - must start with http:// or https://'' c
         else
           (case py_int L (max_threads_entry c) of
              Inl e \<Rightarrow> show_dialog ''Error'' ''Max threads must be 1-16'' c
            | Inr max_threads \<Rightarrow>
                if \<not> (1 \<le> max_threads \<and> max_threads \<le> 16)
                then show_dialog ''Error'' ''Max threads must be 1-16'' c
                else
                  (case py_float L (politeness_delay_entry c) of
                     Inl e \<Rightarrow> show_dialog ''Error'' (''Delay must be '' @ [CHR 0xE2, CHR 0x89, CHR 0xA5] @ ''0'') c
                   | Inr delay \<Rightarrow>
                       if float_lt_zero delay
                       then show_dialog ''Error'' (''Delay must be '' @ [CHR 0xE2, CHR 0x89, CHR 0xA5] @ ''0'') c
                       else
                         (let c1 = c\<lparr>crawler_running := True, current_status := ''Running'',
                                     url_queue := []\<rparr>;
                              c2 = put start_url c1;
                              c3 = load_urls w c2;
                              c4 = c3\<lparr>workers := workers c3 @ replicate (nat max_threads) LoopHead\<rparr>;
                              c5 = update_stats c4
                          in log_line ''Crawler started successfully'' c5)))))"

definition stop_crawler :: "crawler \<Rightarrow> crawler" where
  "stop_crawler c =
     (if crawler_running c
      then log_line ''Crawler stopping...'' (c\<lparr>crawler_running := False, current_status := ''Stopped''\<rparr>)
      else c)"

text \<open>\<open>os.remove\<close> is the operation that can fail; it runs only when the file exists.\<close>

definition clear_storage :: "world \<Rightarrow> crawler \<Rightarrow> crawler" where
  "clear_storage w c =
     (if answer_yes w
      then
        (let filename = storage_file_entry c in
         if files c filename \<noteq> None \<and> io_error w \<noteq> None
         then log_line (''Clear error: '' @ the (io_error w)) c
         else setup_stats (log_line ''Storage cleared successfully''
                (c\<lparr>files := (files c)(filename := None), visited_urls := {}, url_table := []\<rparr>)))
      else c)"

subsection \<open>worker\<close>

definition set_pc :: "nat \<Rightarrow> pc \<Rightarrow> crawler \<Rightarrow> crawler" where
  "set_pc i p c = c\<lparr>workers := (workers c)[i := p]\<rparr>"

text \<open>
  The handler \<open>except Exception\<close>: it logs and calls \<open>task_done\<close>; when that call raises,
  nothing catches the exception and the thread ends.
\<close>

definition worker_error :: "nat \<Rightarrow> string \<Rightarrow> crawler \<Rightarrow> crawler" where
  "worker_error i e c =
     (let c1 = log_line (''Worker error: '' @ e) c in
      case task_done c1 of
        Inl e' \<Rightarrow> set_pc i Dead c1
      | Inr c2 \<Rightarrow> set_pc i LoopHead c2)"

text \<open>
  One atomic action of thread \<open>i\<close>. A thread that waits (for an item of the empty queue,
  for the lock another thread holds) leaves the state as it is.
\<close>

definition worker_step :: "pylib \<Rightarrow> world \<Rightarrow> nat \<Rightarrow> crawler \<Rightarrow> crawler" where
  "worker_step L w i c =
     (if length (workers c) \<le> i then c
      else
        (case workers c ! i of
           LoopHead \<Rightarrow> set_pc i (if crawler_running c then Getting else Exited) c
         | Getting \<Rightarrow>
             (case url_queue c of
                [] \<Rightarrow> if get_times_out w then set_pc i Exited c else c
              | url # rest \<Rightarrow> set_pc i (Checking url) (c\<lparr>url_queue := rest\<rparr>))
         | Checking url \<Rightarrow>
             if visited_lock c \<noteq> None then c
             else if url \<in> visited_urls c
             then (case task_done c of
                     Inl e \<Rightarrow> worker_error i e c
                   | Inr c1 \<Rightarrow> set_pc i LoopHead c1)
             else set_pc i (Crawling url) (c\<lparr>visited_urls := insert url (visited_urls c)\<rparr>)
         | Crawling url \<Rightarrow>
             (case crawl_page L (http w) url c of
                ((links, status), c1) \<Rightarrow> set_pc i (Saving url links status) c1)
         | Saving url links status \<Rightarrow> set_pc i (Locking links) (save_url w url status c)
         | Locking links \<Rightarrow>
             if visited_lock c \<noteq> None then c
             else set_pc i (Putting links) (c\<lparr>visited_lock := Some i\<rparr>)
         | Putting [] \<Rightarrow> set_pc i Sleeping (c\<lparr>visited_lock := None\<rparr>)
         | Putting (link # links) \<Rightarrow>
             set_pc i (Putting links) (if link \<notin> visited_urls c then put link c else c)
         | Sleeping \<Rightarrow>
             (case py_float L (politeness_delay_entry c) of
                Inl e \<Rightarrow> worker_error i e c
              | Inr delay \<Rightarrow>
                  (case time_sleep L delay of
                     Some e \<Rightarrow> worker_error i e c
                   | None \<Rightarrow> set_pc i Finishing (c\<lparr>sleeps := sleeps c @ [delay]\<rparr>)))
         | Finishing \<Rightarrow>
             (case task_done c of
                Inl e \<Rightarrow> worker_error i e c
              | Inr c1 \<Rightarrow> set_pc i LoopHead c1)
         | Exited \<Rightarrow> c
         | Dead \<Rightarrow> c))"

subsection \<open>Runs\<close>

text \<open>
  What can happen next: a thread takes a step, a button is pressed, a timer fires, the
  user types into an entry or toggles the check box.
\<close>

datatype entry = StartUrl | MaxThreads | Delay | StorageFile

fun type_into :: "entry \<Rightarrow> string \<Rightarrow> crawler \<Rightarrow> crawler" where
  "type_into StartUrl s c = c\<lparr>start_url_entry := s\<rparr>"
| "type_into MaxThreads s c = c\<lparr>max_threads_entry := s\<rparr>"
| "type_into Delay s c = c\<lparr>politeness_delay_entry := s\<rparr>"
| "type_into StorageFile s c = c\<lparr>storage_file_entry := s\<rparr>"

datatype event =
    Worker nat world
  | Start world
  | Stop
  | Clear world
  | Tick
  | Type entry string
  | Toggle bool

fun fire :: "pylib \<Rightarrow> event \<Rightarrow> crawler \<Rightarrow> crawler" where
  "fire L (Worker i w) c = worker_step L w i c"
| "fire L (Start w) c = start_crawler L w c"
| "fire L Stop c = stop_crawler c"
| "fire L (Clear w) c = clear_storage w c"
| "fire L Tick c = tick c"
| "fire L (Type f s) c = type_into f s c"
| "fire L (Toggle b) c = c\<lparr>restrict_domain := b\<rparr>"

fun run :: "pylib \<Rightarrow> event list \<Rightarrow> crawler \<Rightarrow> crawler" where
  "run L [] c = c"
| "run L (e # es) c = run L es (fire L e c)"

subsection \<open>Auxiliary notions\<close>

text \<open>The delay entry holds a text that \<open>float()\<close> reads and \<open>time.sleep\<close> accepts.\<close>

definition nap_ok :: "pylib \<Rightarrow> string \<Rightarrow> bool" where
  "nap_ok L s = (case py_float L s of Inl e \<Rightarrow> False | Inr d \<Rightarrow> time_sleep L d = None)"

text \<open>The checks of \<open>start_crawler\<close>, each as the code makes it.\<close>

definition seed_ok :: "crawler \<Rightarrow> bool" where
  "seed_ok c = (startswith (strip (start_url_entry c)) ''http://''
                \<or> startswith (strip (start_url_entry c)) ''https://'')"

definition threads_ok :: "pylib \<Rightarrow> crawler \<Rightarrow> bool" where
  "threads_ok L c = (case py_int L (max_threads_entry c) of
                       Inl e \<Rightarrow> False | Inr n \<Rightarrow> 1 \<le> n \<and> n \<le> 16)"

definition delay_ok :: "pylib \<Rightarrow> crawler \<Rightarrow> bool" where
  "delay_ok L c = (case py_float L (politeness_delay_entry c) of
                     Inl e \<Rightarrow> False | Inr d \<Rightarrow> \<not> float_lt_zero d)"

subsection \<open>A small world for examples\<close>

text \<open>
  An instance of the library parameters on which the examples run: every \<open>href\<close> is an
  absolute URL, a URL is split at \<open>://\<close> and at the next slash, \<open>int()\<close> reads decimal
  digits and \<open>float()\<close> knows a few spellings.
\<close>

definition toy_lib :: pylib where
  "toy_lib =
     \<lparr> urljoin = (\<lambda>base href. Inr href),
       urlparse = (\<lambda>u. Inr \<lparr> scheme = takeWhile (\<lambda>ch. ch \<noteq> CHR '':'') u,
                              netloc = takeWhile (\<lambda>ch. ch \<noteq> CHR ''/'')
                                         (drop 3 (dropWhile (\<lambda>ch. ch \<noteq> CHR '':'') u)) \<rparr>),
       py_int = (\<lambda>s. if s \<noteq> [] \<and> list_all (\<lambda>ch. ch \<in> set ''0123456789'') s
                      then Inr (foldl (\<lambda>n ch. 10 * n + int (of_char ch) - 48) 0 s)
                      else Inl ''invalid literal for int() with base 10''),
       py_float = (\<lambda>s. if s = ''1.0'' then Inr (Num 1)
                        else if s = ''0'' then Inr (Num 0)
                        else if s = ''-1'' then Inr (Num (- 1))
                        else if s = ''nan'' then Inr NaN
                        else Inl ''could not convert string to float''),
       sleep_limit = 1000000 \<rparr>"

text \<open>A moment at which nothing fails, and one at which the server answers.\<close>

definition quiet :: world where
  "quiet = \<lparr> get_times_out = False, http = Raises ''connection refused'',
             now = ''2024-01-01 00:00:00'', io_error = None, answer_yes = False \<rparr>"

definition answering :: "int \<Rightarrow> string list \<Rightarrow> world" where
  "answering status hrefs = quiet\<lparr>http := Response status (Anchors hrefs)\<rparr>"

text \<open>A moment at which the user answers yes to the dialog.\<close>

definition confirming :: world where
  "confirming = quiet\<lparr>answer_yes := True\<rparr>"

text \<open>
  A window just opened on an empty disk, with seed \<open>https://a.com\<close> and one thread typed
  in; the same after Start and three steps of the thread, which then holds the seed,
  admitted and about to be fetched.
\<close>

definition fresh :: crawler where
  "fresh = type_into MaxThreads ''1'' (type_into StartUrl ''https://a.com''
             (new_crawler 4 (\<lambda>name. None)))"

definition about_to_fetch :: crawler where
  "about_to_fetch = run toy_lib [Start quiet, Worker 0 quiet, Worker 0 quiet, Worker 0 quiet] fresh"

text \<open>The window right after Start.\<close>

definition started :: crawler where
  "started = run toy_lib [Start quiet] fresh"

text \<open>
  A longer run: the seed's page links to \<open>/x\<close> and \<open>/y\<close>; the thread records the seed,
  queues both links, naps, and comes back to take \<open>/x\<close>, which it is about to fetch
  while \<open>/y\<close> waits in the queue.
\<close>

definition second_fetch :: crawler where
  "second_fetch =
     run toy_lib ([Worker 0 (answering 200 [''https://a.com/x'', ''https://a.com/y''])]
                  @ replicate 10 (Worker 0 quiet)) about_to_fetch"

text \<open>The thread after a page that answered 500, at its nap.\<close>

definition napping :: crawler where
  "napping = run toy_lib ([Worker 0 (answering 500 [])] @ replicate 3 (Worker 0 quiet)) about_to_fetch"

subsection \<open>Fetched once\<close>

text \<open>
  The URLs that threads hold between the check under the lock and the request
  (\<open>crawling_of\<close>), and between the request and \<open>save_url\<close> (\<open>saving_of\<close>). The
  invariant: the URLs about to be requested and the URLs requested are all different and
  all visited; the URLs about to be saved and the URLs saved are all different and all
  requested.
\<close>

fun crawling_of :: "pc \<Rightarrow> string list" where
  "crawling_of (Crawling u) = [u]"
| "crawling_of p = []"

fun saving_of :: "pc \<Rightarrow> string list" where
  "saving_of (Saving u ls st) = [u]"
| "saving_of p = []"






subsection \<open>Staying on the domain\<close>

text \<open>
  What \<open>crawl_page\<close> compares is \<open>urlparse(...).netloc\<close>: the host as written, with the
  port if there is one. \<open>urls_held\<close> are the URLs a thread carries that can still reach
  the queue or be fetched. The invariant for a domain \<open>d\<close>: the check box is on, and
  every URL in the queue or carried by a thread has netloc \<open>d\<close>.
\<close>

definition host :: "pylib \<Rightarrow> string \<Rightarrow> string option" where
  "host L u = (case urlparse L u of Inl e \<Rightarrow> None | Inr p \<Rightarrow> Some (netloc p))"

fun urls_held :: "pc \<Rightarrow> string list" where
  "urls_held (Checking u) = [u]"
| "urls_held (Crawling u) = [u]"
| "urls_held (Saving u ls st) = ls"
| "urls_held (Locking ls) = ls"
| "urls_held (Putting ls) = ls"
| "urls_held p = []"

definition scoped :: "pylib \<Rightarrow> string \<Rightarrow> crawler \<Rightarrow> bool" where
  "scoped L d c =
     (restrict_domain c \<and> d \<noteq> []
      \<and> (\<forall>u\<in>set (url_queue c). host L u = Some d)
      \<and> (\<forall>p\<in>set (workers c). \<forall>u\<in>set (urls_held p). host L u = Some d))"





subsection \<open>Tasks of the queue\<close>

text \<open>
  A thread holds an item from \<open>get\<close> until its \<open>task_done\<close>. The invariant: the items
  held and the items queued are all counted in \<open>unfinished_tasks\<close>, and no thread is dead.
\<close>

fun holding :: "pc \<Rightarrow> bool" where
  "holding LoopHead = False"
| "holding Getting = False"
| "holding Exited = False"
| "holding Dead = False"
| "holding p = True"

definition tasks_ok :: "crawler \<Rightarrow> bool" where
  "tasks_ok c =
     (length (filter holding (workers c)) + length (url_queue c) \<le> unfinished_tasks c
      \<and> Dead \<notin> set (workers c))"

subsection \<open>After a stop\<close>

text \<open>
  With the running flag off, a thread can still write a record if it is waiting in \<open>get\<close>
  or is between \<open>get\<close> and \<open>save_url\<close>, and can still take an item from the queue if it is
  waiting in \<open>get\<close>. \<open>winding_down c c'\<close> compares a later state \<open>c'\<close> with \<open>c\<close>: the flag
  is off, every record written since is paid for by a thread that could still write one,
  and every item gone from the queue by a thread that was waiting in \<open>get\<close>.
\<close>

fun may_save :: "pc \<Rightarrow> bool" where
  "may_save Getting = True"
| "may_save (Checking u) = True"
| "may_save (Crawling u) = True"
| "may_save (Saving u ls st) = True"
| "may_save p = False"

fun waiting :: "pc \<Rightarrow> bool" where
  "waiting Getting = True"
| "waiting p = False"

definition winding_down :: "crawler \<Rightarrow> crawler \<Rightarrow> bool" where
  "winding_down c c' =
     (\<not> crawler_running c'
      \<and> length (records c') + length (filter may_save (workers c'))
          \<le> length (records c) + length (filter may_save (workers c))
      \<and> length (url_queue c) + length (filter waiting (workers c'))
          \<le> length (url_queue c') + length (filter waiting (workers c)))"

fun no_start :: "event \<Rightarrow> bool" where
  "no_start (Start w) = False"
| "no_start e = True"

section \<open>Lemmas\<close>

subsection \<open>Single steps\<close>

lemma length_workers_set_pc [simp]: "length (workers (set_pc i p c)) = length (workers c)"
  by (simp add: set_pc_def)

lemma workers_set_pc_same [simp]: "i < length (workers c) \<Longrightarrow> workers (set_pc i p c) ! i = p"
  by (simp add: set_pc_def)

lemma step_LoopHead:
  "i < length (workers c) \<Longrightarrow> workers c ! i = LoopHead \<Longrightarrow>
   worker_step L w i c = set_pc i (if crawler_running c then Getting else Exited) c"
  by (simp add: worker_step_def)

lemma step_Crawling:
  "i < length (workers c) \<Longrightarrow> workers c ! i = Crawling url \<Longrightarrow>
   worker_step L w i c =
     set_pc i (Saving url (fst (fst (crawl_page L (http w) url c))) (snd (fst (crawl_page L (http w) url c))))
       (snd (crawl_page L (http w) url c))"
  by (simp add: worker_step_def split: prod.splits)

lemma step_Saving:
  "i < length (workers c) \<Longrightarrow> workers c ! i = Saving url links status \<Longrightarrow>
   worker_step L w i c = set_pc i (Locking links) (save_url w url status c)"
  by (simp add: worker_step_def)

lemma step_Locking:
  "i < length (workers c) \<Longrightarrow> workers c ! i = Locking links \<Longrightarrow> visited_lock c = None \<Longrightarrow>
   worker_step L w i c = set_pc i (Putting links) (c\<lparr>visited_lock := Some i\<rparr>)"
  by (simp add: worker_step_def)

lemma step_Putting_Nil:
  "i < length (workers c) \<Longrightarrow> workers c ! i = Putting [] \<Longrightarrow>
   worker_step L w i c = set_pc i Sleeping (c\<lparr>visited_lock := None\<rparr>)"
  by (simp add: worker_step_def)


lemma step_Sleeping:
  "i < length (workers c) \<Longrightarrow> workers c ! i = Sleeping \<Longrightarrow>
   worker_step L w i c =
     (case py_float L (politeness_delay_entry c) of
        Inl e \<Rightarrow> worker_error i e c
      | Inr delay \<Rightarrow>
          (case time_sleep L delay of
             Some e \<Rightarrow> worker_error i e c
           | None \<Rightarrow> set_pc i Finishing (c\<lparr>sleeps := sleeps c @ [delay]\<rparr>)))"
  by (simp add: worker_step_def)

lemma step_Finishing:
  "i < length (workers c) \<Longrightarrow> workers c ! i = Finishing \<Longrightarrow>
   worker_step L w i c =
     (case task_done c of Inl e \<Rightarrow> worker_error i e c | Inr c1 \<Rightarrow> set_pc i LoopHead c1)"
  by (simp add: worker_step_def)

lemma worker_error_alive:
  "0 < unfinished_tasks c \<Longrightarrow>
   worker_error i e c =
     set_pc i LoopHead (c\<lparr>log_area := log_area c @ [''Worker error: '' @ e],
                         unfinished_tasks := unfinished_tasks c - 1\<rparr>)"
  by (simp add: worker_error_def task_done_def log_line_def)

lemma crawl_page_not_200:
  "status \<noteq> 200 \<Longrightarrow>
   crawl_page L (Response status body) url c = (([], status), c\<lparr>requests_sent := requests_sent c @ [url]\<rparr>)"
  by (simp add: crawl_page_def)

lemma crawl_page_Raises:
  "crawl_page L (Raises e) url c =
     (([], 0), c\<lparr>requests_sent := requests_sent c @ [url],
                 log_area := log_area c @ [''Error crawling '' @ url @ '': '' @ e]\<rparr>)"
  by (simp add: crawl_page_def crawl_page_failed_def log_line_def)

lemma crawl_page_links_200:
  "fst (fst (crawl_page L r url c)) \<noteq> [] \<Longrightarrow> \<exists>body. r = Response 200 body"
proof (cases r)
  case (Raises e)
  assume "fst (fst (crawl_page L r url c)) \<noteq> []"
  with Raises show ?thesis by (simp add: crawl_page_Raises)
next
  case (Response status body)
  assume "fst (fst (crawl_page L r url c)) \<noteq> []"
  with Response have "status = 200"
    by (cases "status = 200") (simp_all add: crawl_page_not_200)
  with Response show ?thesis by simp
qed

lemma step_Getting_Cons:
  "i < length (workers c) \<Longrightarrow> workers c ! i = Getting \<Longrightarrow> url_queue c = url # rest \<Longrightarrow>
   worker_step L w i c = set_pc i (Checking url) (c\<lparr>url_queue := rest\<rparr>)"
  by (simp add: worker_step_def)

lemma save_url_ok:
  "io_error w = None \<Longrightarrow>
   save_url w url status c =
     c\<lparr>files := (files c)(storage_file_entry c \<mapsto>
                  (case files c (storage_file_entry c) of
                     None \<Rightarrow> [[''URL'', ''Timestamp'', ''Status'']] | Some rows \<Rightarrow> rows)
                  @ [[url, now w, str_int status]]),
       url_table := url_table c @ [[url, now w, str_int status]],
       records := records c @ [(url, now w, status)],
       log_area := log_area c @ [''Crawled: '' @ url @ '' (Status: '' @ str_int status @ '')'']\<rparr>"
  by (simp add: save_url_def log_line_def Let_def)

lemma run_append: "run L (es @ fs) c = run L fs (run L es c)"
  by (induction es arbitrary: c) simp_all

lemma after_the_nap:
  assumes "i < length (workers c)" and "workers c ! i = Sleeping" and "0 < unfinished_tasks c"
    and "crawler_running c" and "url_queue c = url # rest"
  shows "workers (run L (map (Worker i)
           (if nap_ok L (politeness_delay_entry c) then [wa, wb, wc, wd] else [wa, wc, wd])) c) ! i
         = Checking url"
proof (cases "nap_ok L (politeness_delay_entry c)")
  case True
  then obtain d where d: "py_float L (politeness_delay_entry c) = Inr d" "time_sleep L d = None"
    by (auto simp: nap_ok_def split: sum.splits)
  define c1 where "c1 = set_pc i Finishing (c\<lparr>sleeps := sleeps c @ [d]\<rparr>)"
  define c2 where "c2 = set_pc i LoopHead (c1\<lparr>unfinished_tasks := unfinished_tasks c1 - 1\<rparr>)"
  define c3 where "c3 = set_pc i Getting c2"
  have e1: "worker_step L wa i c = c1"
    using assms d by (simp add: step_Sleeping c1_def)
  have s1: "i < length (workers c1)" "workers c1 ! i = Finishing" "0 < unfinished_tasks c1"
    using assms by (simp_all add: c1_def set_pc_def)
  have e2: "worker_step L wb i c1 = c2"
    using s1 by (simp add: step_Finishing task_done_def c2_def)
  have s2: "i < length (workers c2)" "workers c2 ! i = LoopHead" "crawler_running c2"
    using assms by (simp_all add: c2_def c1_def set_pc_def)
  have e3: "worker_step L wc i c2 = c3"
    using s2 by (simp add: step_LoopHead c3_def)
  have s3: "i < length (workers c3)" "workers c3 ! i = Getting" "url_queue c3 = url # rest"
    using assms by (simp_all add: c3_def c2_def c1_def set_pc_def)
  have "workers (worker_step L wd i c3) ! i = Checking url"
    using s3 by (simp add: step_Getting_Cons set_pc_def)
  with True show ?thesis by (simp add: e1 e2 e3)
next
  case False
  then obtain e where e: "py_float L (politeness_delay_entry c) = Inl e
      \<or> (\<exists>d. py_float L (politeness_delay_entry c) = Inr d \<and> time_sleep L d = Some e)"
    by (auto simp: nap_ok_def split: sum.splits)
  define c1 where "c1 = set_pc i LoopHead (c\<lparr>log_area := log_area c @ [''Worker error: '' @ e],
                         unfinished_tasks := unfinished_tasks c - 1\<rparr>)"
  define c3 where "c3 = set_pc i Getting c1"
  have e1: "worker_step L wa i c = c1"
    using assms e by (auto simp: step_Sleeping worker_error_alive c1_def)
  have s1: "i < length (workers c1)" "workers c1 ! i = LoopHead" "crawler_running c1"
    using assms by (simp_all add: c1_def set_pc_def)
  have e3: "worker_step L wc i c1 = c3"
    using s1 by (simp add: step_LoopHead c3_def)
  have s3: "i < length (workers c3)" "workers c3 ! i = Getting" "url_queue c3 = url # rest"
    using assms by (simp_all add: c3_def c1_def set_pc_def)
  have "workers (worker_step L wd i c3) ! i = Checking url"
    using s3 by (simp add: step_Getting_Cons set_pc_def)
  with False show ?thesis by (simp add: e1 e3)
qed

lemma split_at:
  assumes "i < length ws"
  shows "\<exists>xs ys. ws = xs @ ws ! i # ys \<and> (\<forall>p. ws[i := p] = xs @ p # ys)"
proof (intro exI conjI allI)
  show "ws = take i ws @ ws ! i # drop (Suc i) ws"
    using assms by (simp add: id_take_nth_drop)
  show "\<And>p. ws[i := p] = take i ws @ p # drop (Suc i) ws"
    using assms by (simp add: upd_conv_take_nth_drop)
qed

lemma crawl_page_state:
  "\<exists>ms. snd (crawl_page L r url c) =
     c\<lparr>requests_sent := requests_sent c @ [url], log_area := log_area c @ ms\<rparr>"
proof -
  let ?c = "c\<lparr>requests_sent := requests_sent c @ [url]\<rparr>"
  have plain: "?c = c\<lparr>requests_sent := requests_sent c @ [url], log_area := log_area c @ []\<rparr>"
    by simp
  have failed: "\<And>e. snd (crawl_page_failed url e ?c)
       = c\<lparr>requests_sent := requests_sent c @ [url],
           log_area := log_area c @ [''Error crawling '' @ url @ '': '' @ e]\<rparr>"
    by (simp add: crawl_page_failed_def log_line_def)
  have "snd (crawl_page L r url c) = ?c \<or> (\<exists>e. snd (crawl_page L r url c) = snd (crawl_page_failed url e ?c))"
    unfolding crawl_page_def Let_def
    by (auto split: response.splits page.splits sum.splits)
  with plain failed show ?thesis by metis
qed

lemma worker_error_cases:
  "(unfinished_tasks c = 0
      \<and> worker_error i e c = set_pc i Dead (c\<lparr>log_area := log_area c @ [''Worker error: '' @ e]\<rparr>))
   \<or> (0 < unfinished_tasks c
      \<and> worker_error i e c
          = set_pc i LoopHead (c\<lparr>log_area := log_area c @ [''Worker error: '' @ e],
                                 unfinished_tasks := unfinished_tasks c - 1\<rparr>))"
  by (cases "unfinished_tasks c = 0")
    (simp_all add: worker_error_def task_done_def log_line_def)

lemma step_Exited:
  "i < length (workers c) \<Longrightarrow> workers c ! i = Exited \<Longrightarrow> worker_step L w i c = c"
  by (simp add: worker_step_def)

lemma about_to_fetch_run:
  "about_to_fetch =
     run toy_lib [Type StartUrl ''https://a.com'', Type MaxThreads ''1'', Start quiet,
                  Worker 0 quiet, Worker 0 quiet, Worker 0 quiet] (new_crawler 4 (\<lambda>name. None))"
  by (simp add: about_to_fetch_def fresh_def)

subsection \<open>Starting and stopping\<close>

lemma load_urls_effect:
  "\<exists>V T ms. load_urls w c =
     c\<lparr>visited_urls := visited_urls c \<union> V, url_table := url_table c @ T,
       log_area := log_area c @ ms\<rparr>"
proof (cases "files c (storage_file_entry c)")
  case None
  have "c = c\<lparr>visited_urls := visited_urls c \<union> {}, url_table := url_table c @ [],
              log_area := log_area c @ []\<rparr>" by simp
  with None show ?thesis unfolding load_urls_def Let_def by (simp only: option.case) blast
next
  case (Some rows)
  show ?thesis
  proof (cases "io_error w")
    case (Some e)
    have "log_line (''Error loading URLs: '' @ e) c
          = c\<lparr>visited_urls := visited_urls c \<union> {}, url_table := url_table c @ [],
              log_area := log_area c @ [''Error loading URLs: '' @ e]\<rparr>"
      by (simp add: log_line_def)
    with Some \<open>files c (storage_file_entry c) = Some rows\<close> show ?thesis
      unfolding load_urls_def Let_def by (simp only: option.case) blast
  next
    case None
    show ?thesis
    proof (cases rows)
      case Nil
      have "log_line (''Error loading URLs: '') c
          = c\<lparr>visited_urls := visited_urls c \<union> {}, url_table := url_table c @ [],
              log_area := log_area c @ [''Error loading URLs: '']\<rparr>"
        by (simp add: log_line_def)
      with Nil None \<open>files c (storage_file_entry c) = Some rows\<close> show ?thesis
        unfolding load_urls_def Let_def by (simp only: option.case list.case) blast
    next
      case (Cons header body)
      with None \<open>files c (storage_file_entry c) = Some rows\<close> show ?thesis
        unfolding load_urls_def Let_def log_line_def
        by (simp only: option.case list.case) (rule exI, rule exI, rule exI, simp)
    qed
  qed
qed

lemma start_crawler_ok:
  assumes "\<not> crawler_running c" and "seed_ok c"
    and "py_int L (max_threads_entry c) = Inr n" and "1 \<le> n" and "n \<le> 16"
    and "delay_ok L c"
  shows "\<exists>V T ms qc vc.
     start_crawler L w c =
       c\<lparr>crawler_running := True, current_status := ''Running'',
         url_queue := [strip (start_url_entry c)],
         unfinished_tasks := unfinished_tasks c + 1,
         visited_urls := visited_urls c \<union> V, url_table := url_table c @ T,
         workers := workers c @ replicate (nat n) LoopHead,
         queue_count := qc, visited_count := vc, timers := timers c + 1,
         log_area := log_area c @ ms\<rparr>"
proof -
  define c2 where "c2 = put (strip (start_url_entry c))
                          (c\<lparr>crawler_running := True, current_status := ''Running'', url_queue := []\<rparr>)"
  obtain V T ms where l: "load_urls w c2 =
     c2\<lparr>visited_urls := visited_urls c2 \<union> V, url_table := url_table c2 @ T,
        log_area := log_area c2 @ ms\<rparr>"
    using load_urls_effect by blast
  from assms obtain d where d: "py_float L (politeness_delay_entry c) = Inr d" "\<not> float_lt_zero d"
    by (auto simp: delay_ok_def split: sum.splits)
  have "start_crawler L w c =
          log_line ''Crawler started successfully''
            (update_stats ((load_urls w c2)\<lparr>workers := workers (load_urls w c2) @ replicate (nat n) LoopHead\<rparr>))"
    using assms d by (auto simp add: start_crawler_def seed_ok_def Let_def c2_def)
  also have "\<dots> = c\<lparr>crawler_running := True, current_status := ''Running'',
         url_queue := [strip (start_url_entry c)],
         unfinished_tasks := unfinished_tasks c + 1,
         visited_urls := visited_urls c \<union> V, url_table := url_table c @ T,
         workers := workers c @ replicate (nat n) LoopHead,
         queue_count := str_int 1, visited_count := str_int (int (card (visited_urls c \<union> V))),
         timers := timers c + 1,
         log_area := log_area c @ (ms @ [''Crawler started successfully''])\<rparr>"
    by (simp only: l) (simp add: c2_def put_def update_stats_def log_line_def)
  finally show ?thesis by blast
qed

lemma start_crawler_refused:
  assumes "crawler_running c \<or> \<not> seed_ok c \<or> \<not> threads_ok L c \<or> \<not> delay_ok L c"
  shows "\<exists>title message. start_crawler L w c = show_dialog title message c"
proof (cases "crawler_running c")
  case True
  then show ?thesis by (auto simp: start_crawler_def)
next
  case False
  show ?thesis
  proof (cases "seed_ok c")
    case no_seed: False
    with False show ?thesis by (auto simp: start_crawler_def seed_ok_def Let_def)
  next
    case True
    show ?thesis
    proof (cases "threads_ok L c")
      case no_threads: False
      with True \<open>\<not> crawler_running c\<close> show ?thesis
        by (auto simp: start_crawler_def seed_ok_def threads_ok_def Let_def split: sum.splits)
    next
      case threads: True
      with assms True \<open>\<not> crawler_running c\<close> have "\<not> delay_ok L c" by blast
      with True threads \<open>\<not> crawler_running c\<close> show ?thesis
        by (auto simp: start_crawler_def seed_ok_def threads_ok_def delay_ok_def Let_def
            split: sum.splits)
    qed
  qed
qed

lemma stop_crawler_idempotent: "stop_crawler (stop_crawler c) = stop_crawler c"
  by (simp add: stop_crawler_def log_line_def)

lemma stop_crawler_cooperative:
  "\<not> crawler_running (stop_crawler c)
   \<and> workers (stop_crawler c) = workers c \<and> url_queue (stop_crawler c) = url_queue c
   \<and> visited_urls (stop_crawler c) = visited_urls c \<and> records (stop_crawler c) = records c
   \<and> unfinished_tasks (stop_crawler c) = unfinished_tasks c
   \<and> visited_lock (stop_crawler c) = visited_lock c"
  by (simp add: stop_crawler_def log_line_def)

lemma loop_check_exits:
  "\<not> crawler_running c \<Longrightarrow> i < length (workers c) \<Longrightarrow> workers c ! i = LoopHead \<Longrightarrow>
   worker_step L w i c = set_pc i Exited c"
  by (simp add: step_LoopHead)

subsection \<open>Each URL once\<close>






lemma concat_replicate_LoopHead [simp]:
  "concat (map crawling_of (replicate n LoopHead)) = []"
  "concat (map saving_of (replicate n LoopHead)) = []"
  by (induction n) simp_all












subsection \<open>Staying on the domain\<close>





lemma scoped_same:
  assumes "scoped L d c" and "restrict_domain c'" and "url_queue c' = url_queue c"
    and "workers c' = workers c"
  shows "scoped L d c'"
  using assms unfolding scoped_def by simp










subsection \<open>No thread dies\<close>

lemma tasks_ok_set_pc:
  assumes "i < length (workers c)" and "workers c' = workers c" and "p \<noteq> Dead"
    and "Dead \<notin> set (workers c)"
    and "length (filter holding (workers c)) + (if holding p then 1 else 0) + length (url_queue c')
           \<le> unfinished_tasks c' + (if holding (workers c ! i) then 1 else 0)"
  shows "tasks_ok (set_pc i p c')"
proof -
  from split_at [OF assms(1)] obtain xs ys where ws: "workers c = xs @ workers c ! i # ys"
    and upd: "\<forall>q. (workers c)[i := q] = xs @ q # ys" by blast
  have f: "length (filter holding (workers c))
           = length (filter holding xs) + (if holding (workers c ! i) then 1 else 0)
             + length (filter holding ys)"
    by (subst ws) simp
  have d: "Dead \<notin> set xs" "Dead \<notin> set ys"
    using assms(4) by (subst (asm) ws, simp)+
  show ?thesis
    unfolding tasks_ok_def set_pc_def using assms(2,3,5) upd f d by auto
qed

lemma tasks_ok_same:
  assumes "tasks_ok c" and "workers c' = workers c" and "url_queue c' = url_queue c"
    and "unfinished_tasks c' = unfinished_tasks c"
  shows "tasks_ok c'"
  using assms unfolding tasks_ok_def by simp

lemma holding_has_task:
  assumes "tasks_ok c" and "i < length (workers c)" and "holding (workers c ! i)"
  shows "0 < unfinished_tasks c"
proof -
  from assms(2,3) have "workers c ! i \<in> set (filter holding (workers c))" by simp
  then have "0 < length (filter holding (workers c))" by (metis length_pos_if_in_set)
  moreover from assms(1)
  have "length (filter holding (workers c)) + length (url_queue c) \<le> unfinished_tasks c"
    unfolding tasks_ok_def by (rule conjunct1)
  ultimately show ?thesis by linarith
qed

lemma tasks_ok_worker_error:
  assumes "tasks_ok c" and "i < length (workers c)" and "holding (workers c ! i)"
  shows "tasks_ok (worker_error i e c)"
proof -
  have pos: "0 < unfinished_tasks c" using assms by (rule holding_has_task)
  have t: "length (filter holding (workers c)) + length (url_queue c) \<le> unfinished_tasks c"
    "Dead \<notin> set (workers c)"
    using assms(1) unfolding tasks_ok_def by auto
  show ?thesis
    unfolding worker_error_alive [OF pos]
    using assms(2,3) t pos by (intro tasks_ok_set_pc [of i c]) auto
qed

lemma tasks_ok_task_done:
  assumes "tasks_ok c" and "i < length (workers c)" and "holding (workers c ! i)"
  shows "\<exists>c1. task_done c = Inr c1 \<and> tasks_ok (set_pc i LoopHead c1)"
proof -
  have pos: "0 < unfinished_tasks c" using assms by (rule holding_has_task)
  have t: "length (filter holding (workers c)) + length (url_queue c) \<le> unfinished_tasks c"
    "Dead \<notin> set (workers c)"
    using assms(1) unfolding tasks_ok_def by auto
  have "tasks_ok (set_pc i LoopHead (c\<lparr>unfinished_tasks := unfinished_tasks c - 1\<rparr>))"
    using assms(2,3) t pos by (intro tasks_ok_set_pc [of i c]) auto
  with pos show ?thesis by (simp add: task_done_def)
qed

lemma tasks_ok_worker_step:
  assumes "tasks_ok c"
  shows "tasks_ok (worker_step L w i c)"
proof (cases "i < length (workers c)")
  case False
  then show ?thesis using assms by (simp add: worker_step_def)
next
  case True
  have t: "length (filter holding (workers c)) + length (url_queue c) \<le> unfinished_tasks c"
    "Dead \<notin> set (workers c)"
    using assms unfolding tasks_ok_def by auto
  show ?thesis
  proof (cases "workers c ! i")
    case LoopHead
    then show ?thesis
      using True t by (simp add: step_LoopHead tasks_ok_set_pc [of i c])
  next
    case Getting
    show ?thesis
    proof (cases "url_queue c")
      case Nil
      then show ?thesis
        using True Getting t assms by (simp add: worker_step_def tasks_ok_set_pc [of i c])
    next
      case (Cons url rest)
      then show ?thesis
        using True Getting t by (simp add: worker_step_def tasks_ok_set_pc [of i c])
    qed
  next
    case (Checking url)
    then have h: "holding (workers c ! i)" by simp
    show ?thesis
    proof (cases "visited_lock c \<noteq> None")
      case True
      then show ?thesis using \<open>i < length (workers c)\<close> Checking assms
        by (simp add: worker_step_def)
    next
      case False
      show ?thesis
      proof (cases "url \<in> visited_urls c")
        case True
        from tasks_ok_task_done [OF assms \<open>i < length (workers c)\<close> h]
        obtain c1 where "task_done c = Inr c1" "tasks_ok (set_pc i LoopHead c1)" by blast
        with True False Checking \<open>i < length (workers c)\<close> show ?thesis
          by (simp add: worker_step_def)
      next
        case nv: False
        with False Checking \<open>i < length (workers c)\<close> t show ?thesis
          by (simp add: worker_step_def tasks_ok_set_pc [of i c])
      qed
    qed
  next
    case (Crawling url)
    obtain ms where cp: "snd (crawl_page L (http w) url c) =
        c\<lparr>requests_sent := requests_sent c @ [url], log_area := log_area c @ ms\<rparr>"
      using crawl_page_state by blast
    show ?thesis
      using True Crawling t by (simp add: step_Crawling cp tasks_ok_set_pc [of i c])
  next
    case (Saving url links status)
    have "url_queue (save_url w url status c) = url_queue c"
      "workers (save_url w url status c) = workers c"
      "unfinished_tasks (save_url w url status c) = unfinished_tasks c"
      by (simp_all add: save_url_def log_line_def Let_def split: option.splits)
    then show ?thesis
      using True Saving t by (simp add: step_Saving tasks_ok_set_pc [of i c])
  next
    case (Locking links)
    then show ?thesis
      using True t assms by (simp add: worker_step_def tasks_ok_set_pc [of i c])
  next
    case (Putting links)
    show ?thesis
    proof (cases links)
      case Nil
      then show ?thesis
        using True Putting t by (simp add: worker_step_def tasks_ok_set_pc [of i c])
    next
      case (Cons link rest)
      then show ?thesis
        using True Putting t by (simp add: worker_step_def put_def tasks_ok_set_pc [of i c])
    qed
  next
    case Sleeping
    then have h: "holding (workers c ! i)" by simp
    show ?thesis
      using True Sleeping t tasks_ok_worker_error [OF assms True h]
      by (auto simp: step_Sleeping tasks_ok_set_pc [of i c] split: sum.splits option.splits)
  next
    case Finishing
    then have h: "holding (workers c ! i)" by simp
    from tasks_ok_task_done [OF assms True h]
    obtain c1 where "task_done c = Inr c1" "tasks_ok (set_pc i LoopHead c1)" by blast
    with Finishing True show ?thesis by (simp add: step_Finishing)
  next
    case Exited
    then show ?thesis using True assms by (simp add: worker_step_def)
  next
    case Dead
    then show ?thesis using True assms by (simp add: worker_step_def)
  qed
qed

lemma tasks_ok_start:
  assumes "tasks_ok c"
  shows "tasks_ok (start_crawler L w c)"
proof (cases "crawler_running c \<or> \<not> seed_ok c \<or> \<not> threads_ok L c \<or> \<not> delay_ok L c")
  case True
  from start_crawler_refused [OF True] obtain title message
    where "start_crawler L w c = show_dialog title message c" by blast
  then show ?thesis
    using assms by (simp add: show_dialog_def tasks_ok_same [of c])
next
  case False
  then obtain n where n: "py_int L (max_threads_entry c) = Inr n" "1 \<le> n" "n \<le> 16"
    by (auto simp: threads_ok_def split: sum.splits)
  from False n start_crawler_ok [of c L n w] obtain V T ms qc vc where
    s: "start_crawler L w c =
       c\<lparr>crawler_running := True, current_status := ''Running'',
         url_queue := [strip (start_url_entry c)],
         unfinished_tasks := unfinished_tasks c + 1,
         visited_urls := visited_urls c \<union> V, url_table := url_table c @ T,
         workers := workers c @ replicate (nat n) LoopHead,
         queue_count := qc, visited_count := vc, timers := timers c + 1,
         log_area := log_area c @ ms\<rparr>"
    by blast
  show ?thesis
    using assms unfolding tasks_ok_def by (auto simp: s)
qed

lemma tasks_ok_fire:
  assumes "tasks_ok c"
  shows "tasks_ok (fire L e c)"
proof (cases e)
  case (Worker i w)
  then show ?thesis using assms by (simp add: tasks_ok_worker_step)
next
  case (Start w)
  then show ?thesis using assms by (simp add: tasks_ok_start)
next
  case Stop
  then show ?thesis
    using assms by (simp add: stop_crawler_def log_line_def tasks_ok_same [of c])
next
  case (Clear w)
  then show ?thesis
    using assms
    by (simp add: clear_storage_def setup_stats_def log_line_def Let_def tasks_ok_same [of c])
next
  case Tick
  then show ?thesis
    using assms by (simp add: tick_def update_stats_def tasks_ok_def)
next
  case (Type f s)
  then show ?thesis
    using assms by (cases f) (simp_all add: tasks_ok_same [of c])
next
  case (Toggle b)
  then show ?thesis using assms by (simp add: tasks_ok_same [of c])
qed

lemma tasks_ok_run:
  assumes "tasks_ok c"
  shows "tasks_ok (run L es c)"
  using assms
proof (induction es arbitrary: c)
  case Nil
  then show ?case by simp
next
  case (Cons e es)
  then show ?case by (simp add: tasks_ok_fire)
qed

lemma tasks_ok_new: "tasks_ok (new_crawler n disk)"
  by (simp add: tasks_ok_def new_crawler_def setup_stats_def)

lemma no_worker_dies:
  "Dead \<notin> set (workers (run L es (new_crawler n disk)))"
  using tasks_ok_run [OF tasks_ok_new, of L es n disk] unfolding tasks_ok_def by blast

lemma busy_worker_has_task:
  assumes "c = run L es (new_crawler n disk)" and "i < length (workers c)"
    and "holding (workers c ! i)"
  shows "0 < unfinished_tasks c"
  using tasks_ok_run [OF tasks_ok_new, of L es n disk] assms by (simp add: holding_has_task)

subsection \<open>After a stop\<close>

text \<open>
  \<open>stop_crawler\<close> only clears the flag (see \<open>stop_crawler_idempotent\<close>,
  \<open>stop_crawler_cooperative\<close> and \<open>loop_check_exits\<close> above). What the threads still do
  afterwards is bounded, as long as nobody presses Start: each thread writes at most one
  more record, and only if it was waiting in \<open>get\<close> or was between \<open>get\<close> and \<open>save_url\<close>;
  the queue loses at most one item per thread that was waiting in \<open>get\<close>. How long this
  takes on the clock is not part of the model.
\<close>

lemma count_update:
  assumes "i < length ws"
  shows "length (filter P (ws[i := p])) + (if P (ws ! i) then 1 else 0)
         = length (filter P ws) + (if P p then 1 else 0)"
proof -
  from split_at [OF assms] obtain xs ys where ws: "ws = xs @ ws ! i # ys"
    and upd: "\<forall>q. ws[i := q] = xs @ q # ys" by blast
  have "length (filter P ws) = length (filter P xs) + (if P (ws ! i) then 1 else 0)
          + length (filter P ys)"
    by (subst ws) simp
  moreover have "length (filter P (ws[i := p])) = length (filter P xs) + (if P p then 1 else 0)
          + length (filter P ys)"
    using upd by simp
  ultimately show ?thesis by simp
qed

lemma winding_down_set_pc:
  assumes "i < length (workers c)" and "workers c' = workers c" and "\<not> crawler_running c'"
    and "length (records c') + (if may_save p then 1 else 0)
           \<le> length (records c) + (if may_save (workers c ! i) then 1 else 0)"
    and "length (url_queue c) + (if waiting p then 1 else 0)
           \<le> length (url_queue c') + (if waiting (workers c ! i) then 1 else 0)"
  shows "winding_down c (set_pc i p c')"
proof -
  have a: "length (filter may_save ((workers c)[i := p])) + (if may_save (workers c ! i) then 1 else 0)
         = length (filter may_save (workers c)) + (if may_save p then 1 else 0)"
    using assms(1) by (rule count_update)
  have b: "length (filter waiting ((workers c)[i := p])) + (if waiting (workers c ! i) then 1 else 0)
         = length (filter waiting (workers c)) + (if waiting p then 1 else 0)"
    using assms(1) by (rule count_update)
  have "workers (set_pc i p c') = (workers c)[i := p]" "records (set_pc i p c') = records c'"
    "url_queue (set_pc i p c') = url_queue c'" "crawler_running (set_pc i p c') = crawler_running c'"
    using assms(2) by (simp_all add: set_pc_def)
  with a b assms(3,4,5) show ?thesis
    unfolding winding_down_def by (simp split: if_splits)
qed

lemma winding_down_same:
  assumes "\<not> crawler_running c'" and "workers c' = workers c" and "records c' = records c"
    and "url_queue c' = url_queue c"
  shows "winding_down c c'"
  using assms unfolding winding_down_def by simp

lemma winding_down_trans:
  assumes "winding_down a b" and "winding_down b c"
  shows "winding_down a c"
  using assms unfolding winding_down_def by linarith

lemma winding_down_worker_error:
  assumes "\<not> crawler_running c" and "i < length (workers c)"
  shows "winding_down c (worker_error i e c)"
proof -
  from worker_error_cases [of c i e] show ?thesis
  proof
    assume "unfinished_tasks c = 0
      \<and> worker_error i e c = set_pc i Dead (c\<lparr>log_area := log_area c @ [''Worker error: '' @ e]\<rparr>)"
    then show ?thesis
      using assms by (simp add: winding_down_set_pc [of i c])
  next
    assume "0 < unfinished_tasks c
      \<and> worker_error i e c
          = set_pc i LoopHead (c\<lparr>log_area := log_area c @ [''Worker error: '' @ e],
                                 unfinished_tasks := unfinished_tasks c - 1\<rparr>)"
    then show ?thesis
      using assms by (simp add: winding_down_set_pc [of i c])
  qed
qed

lemma winding_down_task_done:
  assumes "\<not> crawler_running c" and "i < length (workers c)"
  shows "winding_down c (case task_done c of Inl e \<Rightarrow> worker_error i e c
                                           | Inr c1 \<Rightarrow> set_pc i LoopHead c1)"
proof (cases "unfinished_tasks c = 0")
  case True
  then show ?thesis
    using winding_down_worker_error [OF assms] by (simp add: task_done_def)
next
  case False
  then show ?thesis
    using assms by (simp add: task_done_def winding_down_set_pc [of i c])
qed

lemma winding_down_worker_step:
  assumes "\<not> crawler_running c"
  shows "winding_down c (worker_step L w i c)"
proof (cases "i < length (workers c)")
  case False
  then show ?thesis using assms by (simp add: worker_step_def winding_down_same)
next
  case True
  show ?thesis
  proof (cases "workers c ! i")
    case LoopHead
    then show ?thesis
      using True assms by (simp add: step_LoopHead winding_down_set_pc [of i c])
  next
    case Getting
    show ?thesis
    proof (cases "url_queue c")
      case Nil
      then show ?thesis
        using True Getting assms
        by (simp add: worker_step_def winding_down_set_pc [of i c] winding_down_same)
    next
      case (Cons url rest)
      then show ?thesis
        using True Getting assms by (simp add: worker_step_def winding_down_set_pc [of i c])
    qed
  next
    case (Checking url)
    show ?thesis
    proof (cases "visited_lock c \<noteq> None")
      case True
      then show ?thesis using \<open>i < length (workers c)\<close> Checking assms
        by (simp add: worker_step_def winding_down_same)
    next
      case False
      show ?thesis
      proof (cases "url \<in> visited_urls c")
        case True
        with False Checking \<open>i < length (workers c)\<close> show ?thesis
          using winding_down_task_done [OF assms \<open>i < length (workers c)\<close>]
          by (simp add: worker_step_def)
      next
        case nv: False
        with False Checking \<open>i < length (workers c)\<close> assms show ?thesis
          by (simp add: worker_step_def winding_down_set_pc [of i c])
      qed
    qed
  next
    case (Crawling url)
    obtain ms where cp: "snd (crawl_page L (http w) url c) =
        c\<lparr>requests_sent := requests_sent c @ [url], log_area := log_area c @ ms\<rparr>"
      using crawl_page_state by blast
    show ?thesis
      using True Crawling assms by (simp add: step_Crawling cp winding_down_set_pc [of i c])
  next
    case (Saving url links status)
    have "url_queue (save_url w url status c) = url_queue c"
      "workers (save_url w url status c) = workers c"
      "crawler_running (save_url w url status c) = crawler_running c"
      "length (records (save_url w url status c)) \<le> length (records c) + 1"
      by (simp_all add: save_url_def log_line_def Let_def split: option.splits)
    then show ?thesis
      using True Saving assms by (simp add: step_Saving winding_down_set_pc [of i c])
  next
    case (Locking links)
    then show ?thesis
      using True assms
      by (simp add: worker_step_def winding_down_set_pc [of i c] winding_down_same)
  next
    case (Putting links)
    show ?thesis
    proof (cases links)
      case Nil
      then show ?thesis
        using True Putting assms by (simp add: worker_step_def winding_down_set_pc [of i c])
    next
      case (Cons link rest)
      then show ?thesis
        using True Putting assms
        by (simp add: worker_step_def put_def winding_down_set_pc [of i c])
    qed
  next
    case Sleeping
    then show ?thesis
      using True assms winding_down_worker_error [OF assms True]
      by (auto simp: step_Sleeping winding_down_set_pc [of i c] split: sum.splits option.splits)
  next
    case Finishing
    then show ?thesis
      using True winding_down_task_done [OF assms True] by (simp add: step_Finishing)
  next
    case Exited
    then show ?thesis using True assms by (simp add: worker_step_def winding_down_same)
  next
    case Dead
    then show ?thesis using True assms by (simp add: worker_step_def winding_down_same)
  qed
qed

lemma winding_down_fire:
  assumes "\<not> crawler_running c" and "no_start e"
  shows "winding_down c (fire L e c)"
proof (cases e)
  case (Worker i w)
  then show ?thesis using assms by (simp add: winding_down_worker_step)
next
  case (Start w)
  then show ?thesis using assms by simp
next
  case Stop
  then show ?thesis
    using assms by (simp add: stop_crawler_def winding_down_same)
next
  case (Clear w)
  then show ?thesis
    using assms
    by (simp add: clear_storage_def setup_stats_def log_line_def Let_def winding_down_same)
next
  case Tick
  then show ?thesis
    using assms by (simp add: tick_def update_stats_def winding_down_same)
next
  case (Type f s)
  then show ?thesis
    using assms by (cases f) (simp_all add: winding_down_same)
next
  case (Toggle b)
  then show ?thesis using assms by (simp add: winding_down_same)
qed

lemma winding_down_run:
  assumes "\<not> crawler_running c" and "\<forall>e\<in>set es. no_start e"
  shows "winding_down c (run L es c)"
  using assms
proof (induction es arbitrary: c)
  case Nil
  then show ?case by (simp add: winding_down_same)
next
  case (Cons e es)
  have one: "winding_down c (fire L e c)"
    using Cons.prems by (simp add: winding_down_fire)
  then have "\<not> crawler_running (fire L e c)" unfolding winding_down_def by simp
  then have "winding_down (fire L e c) (run L es (fire L e c))"
    using Cons.prems by (intro Cons.IH) simp_all
  with one show ?case by (simp add: winding_down_trans [of c "fire L e c"])
qed

lemma after_stop:
  assumes "\<forall>e\<in>set es. no_start e"
  shows "length (records (run L es (stop_crawler c)))
           \<le> length (records c) + length (filter may_save (workers c))
         \<and> length (url_queue c) \<le> length (url_queue (run L es (stop_crawler c)))
              + length (filter waiting (workers c))"
proof -
  have "\<not> crawler_running (stop_crawler c)" by (simp add: stop_crawler_cooperative)
  then have "winding_down (stop_crawler c) (run L es (stop_crawler c))"
    using assms by (rule winding_down_run)
  then show ?thesis
    unfolding winding_down_def by (simp add: stop_crawler_cooperative)
qed

section \<open>The claims\<close>

subsection \<open>Each URL once\<close>




subsection \<open>Clearing\<close>

text \<open>
  C2, as the claim states it, fails: \<open>clear_storage\<close> does not look at the running flag.
  With a session running and the seed visited, a confirmed clear empties the visited set.
\<close>

theorem clear_while_running_counterexample:
  "crawler_running about_to_fetch
   \<and> visited_urls about_to_fetch = {''https://a.com''}
   \<and> visited_urls (clear_storage confirming about_to_fetch) = {}"
  by code_simp

text \<open>
  C2, amended. \<open>clear_storage\<close> asks the user and does nothing when the answer is no.
  When the answer is yes and removing the file does not fail (or there is no file), it
  empties the visited set and the table and removes the storage file, whether or not a
  session is running; the running flag, the queue and the threads are left as they are.
  \<open>load_urls\<close> afterwards finds no file and loads nothing.
\<close>

theorem clear_storage_effect:
  "(\<not> answer_yes w \<longrightarrow> clear_storage w c = c)
   \<and> (answer_yes w \<and> (io_error w = None \<or> files c (storage_file_entry c) = None) \<longrightarrow>
        visited_urls (clear_storage w c) = {}
        \<and> files (clear_storage w c) (storage_file_entry c) = None
        \<and> url_table (clear_storage w c) = []
        \<and> crawler_running (clear_storage w c) = crawler_running c
        \<and> url_queue (clear_storage w c) = url_queue c
        \<and> workers (clear_storage w c) = workers c
        \<and> load_urls w' (clear_storage w c) = clear_storage w c)"
  by (auto simp: clear_storage_def setup_stats_def log_line_def load_urls_def)

theorem clear_storage_effect_witness:
  "clear_storage quiet about_to_fetch = about_to_fetch
   \<and> visited_urls (clear_storage confirming about_to_fetch) = {}
   \<and> crawler_running (clear_storage confirming about_to_fetch) = crawler_running about_to_fetch
   \<and> load_urls quiet (clear_storage confirming about_to_fetch) = clear_storage confirming about_to_fetch"
proof -
  have a: "\<not> answer_yes quiet" by code_simp
  have b: "answer_yes confirming \<and> io_error confirming = None" by code_simp
  show ?thesis
    using clear_storage_effect [of quiet about_to_fetch quiet]
      clear_storage_effect [of confirming about_to_fetch quiet] a b
    by blast
qed

subsection \<open>Staying on the domain\<close>




subsection \<open>A fetch that raises\<close>

text \<open>
  C4. When \<open>requests.get\<close> raises (connection refused, DNS failure, timeout), the worker
  goes on with status 0 and no links, and the error is logged. \<open>save_url\<close> then writes the
  record with status 0, nothing is queued, and the thread neither exits nor dies: after its
  nap (or after the handler, when the nap raises) it is back at the head of the loop and
  takes the next entry of the queue. This holds in every state a run from a new window
  reaches, for a thread that finds the lock free.
\<close>

theorem fetch_failure_recovered:
  assumes reach: "c = run L es (new_crawler n disk)"
    and at: "i < length (workers c)" "workers c ! i = Crawling url"
    and env: "http w1 = Raises e" "io_error w2 = None"
    and rest: "visited_lock c = None" "crawler_running c" "url_queue c = next_url # rest"
  shows "workers (worker_step L w1 i c) ! i = Saving url [] 0
         \<and> log_area (worker_step L w1 i c) = log_area c @ [''Error crawling '' @ url @ '': '' @ e]
         \<and> records (run L [Worker i w1, Worker i w2] c) = records c @ [(url, now w2, 0)]
         \<and> url_queue (run L [Worker i w1, Worker i w2, Worker i w3, Worker i w4] c) = url_queue c
         \<and> workers (run L (map (Worker i)
               ([w1, w2, w3, w4] @
                (if nap_ok L (politeness_delay_entry c) then [w5, w6, w7, w8] else [w5, w7, w8]))) c) ! i
             = Checking next_url"
proof -
  have "holding (workers c ! i)" using at by simp
  with reach at have pos: "0 < unfinished_tasks c" by (intro busy_worker_has_task)
  note assms = at env rest pos
  define c1 where "c1 = worker_step L w1 i c"
  define c2 where "c2 = worker_step L w2 i c1"
  define c3 where "c3 = worker_step L w3 i c2"
  define c4 where "c4 = worker_step L w4 i c3"
  have e1: "c1 = set_pc i (Saving url [] 0)
                  (c\<lparr>requests_sent := requests_sent c @ [url],
                     log_area := log_area c @ [''Error crawling '' @ url @ '': '' @ e]\<rparr>)"
    using assms by (simp add: c1_def step_Crawling crawl_page_Raises)
  have e2: "c2 = set_pc i (Locking []) (save_url w2 url 0 c1)"
    using assms by (simp add: c2_def e1 step_Saving)
  have s2: "i < length (workers c2)" "workers c2 ! i = Locking []" "visited_lock c2 = None"
    using assms by (simp_all add: e2 e1 save_url_ok set_pc_def)
  have e3: "c3 = set_pc i (Putting []) (c2\<lparr>visited_lock := Some i\<rparr>)"
    using s2 by (simp add: c3_def step_Locking)
  have s3: "i < length (workers c3)" "workers c3 ! i = Putting []"
    using s2 by (simp_all add: e3 set_pc_def)
  have e4: "c4 = set_pc i Sleeping (c3\<lparr>visited_lock := None\<rparr>)"
    using s3 by (simp add: c4_def step_Putting_Nil)
  have s4: "i < length (workers c4)" "workers c4 ! i = Sleeping" "0 < unfinished_tasks c4"
    "crawler_running c4" "url_queue c4 = next_url # rest"
    "politeness_delay_entry c4 = politeness_delay_entry c"
    using assms by (simp_all add: e4 e3 e2 e1 save_url_ok set_pc_def)
  have r4: "run L (map (Worker i) [w1, w2, w3, w4]) c = c4"
    by (simp add: c1_def c2_def c3_def c4_def)
  have a: "workers c1 ! i = Saving url [] 0"
    using assms by (simp add: e1 set_pc_def)
  have b: "log_area c1 = log_area c @ [''Error crawling '' @ url @ '': '' @ e]"
    by (simp add: e1 set_pc_def)
  have c: "records c2 = records c @ [(url, now w2, 0)]"
    using assms by (simp add: e2 e1 save_url_ok set_pc_def)
  have d: "url_queue c4 = url_queue c"
    using assms by (simp add: e4 e3 e2 e1 save_url_ok set_pc_def)
  have f: "workers (run L (map (Worker i)
               ([w1, w2, w3, w4] @
                (if nap_ok L (politeness_delay_entry c) then [w5, w6, w7, w8] else [w5, w7, w8]))) c) ! i
             = Checking next_url"
    using after_the_nap [OF s4(1-5), of L w5 w6 w7 w8] s4(6)
    by (simp only: map_append run_append r4)
  from a b c d f show ?thesis
    by (simp add: c1_def c2_def c3_def c4_def)
qed

theorem fetch_failure_recovered_witness:
  "workers (worker_step toy_lib quiet 0 second_fetch) ! 0 = Saving ''https://a.com/x'' [] 0
   \<and> records (run toy_lib [Worker 0 quiet, Worker 0 quiet] second_fetch)
       = records second_fetch @ [(''https://a.com/x'', now quiet, 0)]
   \<and> workers (run toy_lib (map (Worker 0)
         ([quiet, quiet, quiet, quiet] @
          (if nap_ok toy_lib (politeness_delay_entry second_fetch)
           then [quiet, quiet, quiet, quiet] else [quiet, quiet, quiet]))) second_fetch) ! 0
       = Checking ''https://a.com/y''"
proof -
  have h1: "0 < length (workers second_fetch)" by code_simp
  have h2: "workers second_fetch ! 0 = Crawling ''https://a.com/x''" by code_simp
  have h3: "http quiet = Raises ''connection refused''" by code_simp
  have h4: "io_error quiet = None" by code_simp
  have h5: "visited_lock second_fetch = None" by code_simp
  have h0: "second_fetch =
      run toy_lib ([Type StartUrl ''https://a.com'', Type MaxThreads ''1'', Start quiet,
                    Worker 0 quiet, Worker 0 quiet, Worker 0 quiet]
                   @ ([Worker 0 (answering 200 [''https://a.com/x'', ''https://a.com/y''])]
                      @ replicate 10 (Worker 0 quiet))) (new_crawler 4 (\<lambda>name. None))"
    by (simp only: second_fetch_def about_to_fetch_run run_append)
  have h7: "crawler_running second_fetch" by code_simp
  have h8: "url_queue second_fetch = ''https://a.com/y'' # []" by code_simp
  show ?thesis
    using fetch_failure_recovered [OF h0 h1 h2 h3 h4 h5 h7 h8,
        of quiet quiet quiet quiet quiet quiet] by blast
qed

subsection \<open>Starting\<close>




subsection \<open>A status other than 200 is recorded\<close>

text \<open>
  C7. A response with a status other than 200 (500, say) is not an error. The worker that
  fetches it writes one record carrying that status, logs the line of a crawled page and
  no error line, and puts nothing into the queue: after the fetch, the save and the
  (empty) loop under the lock the queue is what it was.
\<close>

theorem status_recorded_without_links:
  assumes "i < length (workers c)" and "workers c ! i = Crawling url"
    and "http w1 = Response status body" and "status \<noteq> 200"
    and "io_error w2 = None" and "visited_lock c = None"
  shows "records (run L [Worker i w1, Worker i w2, Worker i w3, Worker i w4] c)
           = records c @ [(url, now w2, status)]
         \<and> url_table (run L [Worker i w1, Worker i w2, Worker i w3, Worker i w4] c)
           = url_table c @ [[url, now w2, str_int status]]
         \<and> log_area (run L [Worker i w1, Worker i w2, Worker i w3, Worker i w4] c)
           = log_area c @ [''Crawled: '' @ url @ '' (Status: '' @ str_int status @ '')'']
         \<and> url_queue (run L [Worker i w1, Worker i w2, Worker i w3, Worker i w4] c) = url_queue c
         \<and> workers (run L [Worker i w1, Worker i w2, Worker i w3, Worker i w4] c) ! i = Sleeping"
proof -
  define c1 where "c1 = worker_step L w1 i c"
  define c2 where "c2 = worker_step L w2 i c1"
  define c3 where "c3 = worker_step L w3 i c2"
  define c4 where "c4 = worker_step L w4 i c3"
  have r: "run L [Worker i w1, Worker i w2, Worker i w3, Worker i w4] c = c4"
    by (simp add: c1_def c2_def c3_def c4_def)
  have e1: "c1 = set_pc i (Saving url [] status) (c\<lparr>requests_sent := requests_sent c @ [url]\<rparr>)"
    using assms by (simp add: c1_def step_Crawling crawl_page_not_200)
  have e2: "c2 = set_pc i (Locking []) (save_url w2 url status c1)"
    using assms by (simp add: c2_def e1 step_Saving)
  have s2: "i < length (workers c2)" "workers c2 ! i = Locking []" "visited_lock c2 = None"
    using assms by (simp_all add: e2 e1 save_url_ok set_pc_def)
  have e3: "c3 = set_pc i (Putting []) (c2\<lparr>visited_lock := Some i\<rparr>)"
    using s2 by (simp add: c3_def step_Locking)
  have s3: "i < length (workers c3)" "workers c3 ! i = Putting []"
    using s2 by (simp_all add: e3 set_pc_def)
  have e4: "c4 = set_pc i Sleeping (c3\<lparr>visited_lock := None\<rparr>)"
    using s3 by (simp add: c4_def step_Putting_Nil)
  show ?thesis
    unfolding r using assms s2 s3
    by (simp add: e4 e3 e2 e1 save_url_ok set_pc_def)
qed

theorem status_recorded_without_links_witness:
  "records (run toy_lib [Worker 0 (answering 500 [''https://a.com/x'']), Worker 0 quiet,
                         Worker 0 quiet, Worker 0 quiet] about_to_fetch)
     = records about_to_fetch @ [(''https://a.com'', now quiet, 500)]
   \<and> url_queue (run toy_lib [Worker 0 (answering 500 [''https://a.com/x'']), Worker 0 quiet,
                         Worker 0 quiet, Worker 0 quiet] about_to_fetch)
     = url_queue about_to_fetch"
proof -
  have h1: "0 < length (workers about_to_fetch)" by code_simp
  have h2: "workers about_to_fetch ! 0 = Crawling ''https://a.com''" by code_simp
  have h3: "http (answering 500 [''https://a.com/x'']) = Response 500 (Anchors [''https://a.com/x''])"
    by code_simp
  have h4: "(500::int) \<noteq> 200" by simp
  have h5: "io_error quiet = None" by code_simp
  have h6: "visited_lock about_to_fetch = None" by code_simp
  show ?thesis
    using status_recorded_without_links [OF h1 h2 h3 h4 h5 h6, of toy_lib quiet quiet] by blast
qed

subsection \<open>Stopping and starting again\<close>




subsection \<open>Links only from status 200\<close>

text \<open>
  C9. \<open>crawl_page\<close> extracts links only when the status code is exactly 200. For any
  other status (203 and 206 included) it returns the empty list with that status; a
  non-empty list of links can only come from a response with status 200; and the worker
  that fetched such a page carries no link on, so the queue gets nothing from it.
\<close>

theorem extraction_only_on_200:
  "(status \<noteq> 200 \<longrightarrow> fst (crawl_page L (Response status body) url c) = ([], status))
   \<and> (fst (fst (crawl_page L r url c)) \<noteq> [] \<longrightarrow> (\<exists>body'. r = Response 200 body'))
   \<and> (status \<noteq> 200 \<and> i < length (workers c) \<and> workers c ! i = Crawling url
        \<and> http w = Response status body
      \<longrightarrow> workers (worker_step L w i c) ! i = Saving url [] status
          \<and> url_queue (worker_step L w i c) = url_queue c)"
  by (auto simp: crawl_page_not_200 step_Crawling set_pc_def dest: crawl_page_links_200)

theorem extraction_only_on_200_witness:
  "fst (crawl_page toy_lib (Response 206 (Anchors [''https://a.com/x''])) ''https://a.com'' about_to_fetch)
     = ([], 206)
   \<and> (\<exists>body'. Response 200 (Anchors [''https://a.com/x'']) = Response 200 body')
   \<and> workers (worker_step toy_lib (answering 206 [''https://a.com/x'']) 0 about_to_fetch) ! 0
       = Saving ''https://a.com'' [] 206
   \<and> url_queue (worker_step toy_lib (answering 206 [''https://a.com/x'']) 0 about_to_fetch)
       = url_queue about_to_fetch"
proof -
  have h1: "(206::int) \<noteq> 200" by simp
  have h2: "fst (fst (crawl_page toy_lib (Response 200 (Anchors [''https://a.com/x'']))
               ''https://a.com'' about_to_fetch)) \<noteq> []"
    by code_simp
  have h3: "0 < length (workers about_to_fetch)" by code_simp
  have h4: "workers about_to_fetch ! 0 = Crawling ''https://a.com''" by code_simp
  have h5: "http (answering 206 [''https://a.com/x'']) = Response 206 (Anchors [''https://a.com/x''])"
    by code_simp
  show ?thesis
    using extraction_only_on_200 [of 206 toy_lib "Anchors [''https://a.com/x'']" "''https://a.com''"
        about_to_fetch "Response 200 (Anchors [''https://a.com/x''])" 0 "answering 206 [''https://a.com/x'']"]
      h1 h2 h3 h4 h5
    by blast
qed

subsection \<open>The politeness delay\<close>

text \<open>
  C10. The worker reads the delay entry each time it is about to nap: nothing of the delay
  is kept in the thread, so whatever text \<open>s\<close> was typed into the entry by then is the one
  that counts. When \<open>s\<close> reads as a number that \<open>time.sleep\<close> accepts, the thread naps
  that long. When \<open>float()\<close> raises on \<open>s\<close>, or \<open>time.sleep\<close> raises on the number (a
  negative one, NaN), the handler logs the error, calls \<open>task_done\<close>, and the thread is
  back at the head of the loop, alive. This holds in every state a run from a new window
  reaches.
\<close>

theorem delay_read_each_time:
  assumes reach: "c = run L es (new_crawler n disk)"
    and at: "i < length (workers c)" "workers c ! i = Sleeping"
  shows "(py_float L s = Inr d \<and> time_sleep L d = None \<longrightarrow>
            worker_step L w i (type_into Delay s c)
              = set_pc i Finishing (c\<lparr>politeness_delay_entry := s, sleeps := sleeps c @ [d]\<rparr>))
         \<and> (py_float L s = Inl e \<or> (py_float L s = Inr d \<and> time_sleep L d = Some e) \<longrightarrow>
            worker_step L w i (type_into Delay s c)
              = set_pc i LoopHead
                  (c\<lparr>politeness_delay_entry := s,
                     log_area := log_area c @ [''Worker error: '' @ e],
                     unfinished_tasks := unfinished_tasks c - 1\<rparr>))"
proof -
  have "holding (workers c ! i)" using at by simp
  with reach at have "0 < unfinished_tasks c" by (intro busy_worker_has_task)
  with at show ?thesis by (auto simp: step_Sleeping worker_error_alive)
qed

theorem delay_read_each_time_witness:
  "worker_step toy_lib quiet 0 (type_into Delay ''0'' napping)
     = set_pc 0 Finishing (napping\<lparr>politeness_delay_entry := ''0'', sleeps := sleeps napping @ [Num 0]\<rparr>)
   \<and> worker_step toy_lib quiet 0 (type_into Delay ''soon'' napping)
     = set_pc 0 LoopHead
         (napping\<lparr>politeness_delay_entry := ''soon'',
            log_area := log_area napping @ [''Worker error: '' @ ''could not convert string to float''],
            unfinished_tasks := unfinished_tasks napping - 1\<rparr>)
   \<and> worker_step toy_lib quiet 0 (type_into Delay ''-1'' napping)
     = set_pc 0 LoopHead
         (napping\<lparr>politeness_delay_entry := ''-1'',
            log_area := log_area napping @ [''Worker error: '' @ ''sleep length must be non-negative''],
            unfinished_tasks := unfinished_tasks napping - 1\<rparr>)"
proof -
  have h1: "0 < length (workers napping)" by code_simp
  have h2: "workers napping ! 0 = Sleeping" by code_simp
  have h0: "napping =
      run toy_lib ([Type StartUrl ''https://a.com'', Type MaxThreads ''1'', Start quiet,
                    Worker 0 quiet, Worker 0 quiet, Worker 0 quiet]
                   @ ([Worker 0 (answering 500 [])] @ replicate 3 (Worker 0 quiet)))
        (new_crawler 4 (\<lambda>name. None))"
    by (simp only: napping_def about_to_fetch_run run_append)
  have a: "py_float toy_lib ''0'' = Inr (Num 0) \<and> time_sleep toy_lib (Num 0) = None"
    by (simp add: toy_lib_def)
  have b: "py_float toy_lib ''soon'' = Inl ''could not convert string to float''"
    by (simp add: toy_lib_def)
  have c: "py_float toy_lib ''-1'' = Inr (Num (- 1))
           \<and> time_sleep toy_lib (Num (- 1)) = Some ''sleep length must be non-negative''"
    by (simp add: toy_lib_def)
  show ?thesis
    using delay_read_each_time [OF h0 h1 h2, of "''0''" "Num 0" quiet]
      delay_read_each_time [OF h0 h1 h2, of "''soon''" _ quiet "''could not convert string to float''"]
      delay_read_each_time [OF h0 h1 h2, of "''-1''" "Num (- 1)" quiet "''sleep length must be non-negative''"]
      a b c
    by blast
qed

end
